theory Spec2Isabelle
  imports Main "HOL-Library.Sublist"
begin

section \<open>Strings and character classes\<close>

text \<open>
  A JavaScript string is modelled as the list of its code units, for code units in
  the range 0..255 (\<^typ>\<open>char\<close>).  The regular expressions of the source carry no
  \<^verbatim>\<open>u\<close> flag, so they work on single code units; the character classes below
  are the ECMAScript ones cut down to that range.
\<close>

definition code_unit :: "char \<Rightarrow> nat" where
  "code_unit c = of_char c"

definition backtick :: char where
  "backtick = CHR 0x60"

definition nl :: char where
  "nl = CHR 0x0A"

text \<open>The three backticks that open and close a block in every pattern of the source.\<close>

definition fence :: string where
  "fence = [backtick, backtick, backtick]"

text \<open>\<^verbatim>\<open>\w\<close>: the characters A-Z, a-z, 0-9 and the underscore.\<close>

definition isWordChar :: "char \<Rightarrow> bool" where
  "isWordChar c =
     (let n = code_unit c
      in (48 \<le> n \<and> n \<le> 57) \<or> (65 \<le> n \<and> n \<le> 90) \<or> n = 95 \<or> (97 \<le> n \<and> n \<le> 122))"

text \<open>\<^verbatim>\<open>[\w-]\<close>, the header class of the by-filename pattern.\<close>

definition isWordDash :: "char \<Rightarrow> bool" where
  "isWordDash c = (isWordChar c \<or> c = CHR ''-'')"

text \<open>
  \<^verbatim>\<open>\s\<close>, which is also what \<^verbatim>\<open>String.prototype.trim\<close> strips: TAB, LF, VT, FF,
  CR, SPACE and NO-BREAK SPACE.
\<close>

definition isSpaceChar :: "char \<Rightarrow> bool" where
  "isSpaceChar c =
     (let n = code_unit c in (9 \<le> n \<and> n \<le> 13) \<or> n = 32 \<or> n = 160)"

text \<open>The line terminators, which \<^verbatim>\<open>.\<close> does not match: LF and CR.\<close>

definition isLineTerminator :: "char \<Rightarrow> bool" where
  "isLineTerminator c = (let n = code_unit c in n = 10 \<or> n = 13)"

text \<open>
  Case folding of the \<^verbatim>\<open>i\<close> flag (ECMAScript \<^verbatim>\<open>Canonicalize\<close> without
  \<^verbatim>\<open>u\<close>): a character is compared through its upper-case form.  In the range
  0..255 that moves a-z and the accented lower-case letters (all of 0xE0..0xFE but
  the division sign) down by 32; the upper-case forms of the micro sign, the sharp
  s and y-diaeresis are not in the range (or are two code units), so these three
  only match themselves.
\<close>

definition canonicalize :: "char \<Rightarrow> char" where
  "canonicalize c =
     (let n = code_unit c
      in if (97 \<le> n \<and> n \<le> 122) \<or> (224 \<le> n \<and> n \<le> 254 \<and> n \<noteq> 247)
         then char_of (n - 32) else c)"

text \<open>\<^verbatim>\<open>String.prototype.toLowerCase\<close>, code unit by code unit.\<close>

definition lowerChar :: "char \<Rightarrow> char" where
  "lowerChar c =
     (let n = code_unit c
      in if (65 \<le> n \<and> n \<le> 90) \<or> (192 \<le> n \<and> n \<le> 222 \<and> n \<noteq> 215)
         then char_of (n + 32) else c)"

definition toLowerCase :: "string \<Rightarrow> string" where
  "toLowerCase s = map lowerChar s"

text \<open>\<^verbatim>\<open>String.prototype.trim\<close>.\<close>

definition trim :: "string \<Rightarrow> string" where
  "trim s = rev (dropWhile isSpaceChar (rev (dropWhile isSpaceChar s)))"

section \<open>Regular-expression primitives\<close>

text \<open>
  A literal pattern \<open>p\<close> under the \<^verbatim>\<open>i\<close> flag matches at the head of \<open>s\<close> when
  \<open>s\<close> starts with \<open>length p\<close> characters that agree with \<open>p\<close> after case
  folding.
\<close>

definition ciEq :: "string \<Rightarrow> string \<Rightarrow> bool" where
  "ciEq a b = (map canonicalize a = map canonicalize b)"

definition ciPrefix :: "string \<Rightarrow> string \<Rightarrow> bool" where
  "ciPrefix p s = (length p \<le> length s \<and> ciEq (take (length p) s) p)"

text \<open>
  \<^verbatim>\<open>[\s\S]*?```\<close>: the lazy wildcard stops at the first position where three
  backticks follow.  The result is the text before that position and the text
  after the three backticks; \<open>None\<close> when there is no such position.
\<close>

fun splitAtFence :: "string \<Rightarrow> (string \<times> string) option" where
  "splitAtFence [] = None"
| "splitAtFence (c # cs) =
     (if take 3 (c # cs) = fence then Some ([], drop 3 (c # cs))
      else (case splitAtFence cs of
              None \<Rightarrow> None
            | Some (body, rest) \<Rightarrow> Some (c # body, rest)))"

text \<open>
  A pattern is tried at position 0, then 1, and so on; the first position where it
  matches wins.  \<open>search m s\<close> runs the matcher \<open>m\<close> (which matches at the head of
  its argument and returns what it captured and the text after the match) over
  the suffixes of \<open>s\<close> and returns the text before the match, the capture and the
  text after the match.
\<close>

fun search :: "(string \<Rightarrow> ('a \<times> string) option) \<Rightarrow> string \<Rightarrow> (string \<times> 'a \<times> string) option" where
  "search m [] = (case m [] of None \<Rightarrow> None | Some (x, rest) \<Rightarrow> Some ([], x, rest))"
| "search m (c # cs) =
     (case m (c # cs) of
        Some (x, rest) \<Rightarrow> Some ([], x, rest)
      | None \<Rightarrow> (case search m cs of
                  None \<Rightarrow> None
                | Some (pre, x, rest) \<Rightarrow> Some (c # pre, x, rest)))"

section \<open>Extraction\<close>

text \<open>
  Both source files define \<^verbatim>\<open>extractCodeBlocks\<close> over the same pattern and the
  same loop; the second one (the filename-aware file) adds a \<^verbatim>\<open>filename\<close> field
  to each block.
\<close>

record block =
  lang :: string
  code :: string
  fullBlock :: string

record fblock = block +
  filename :: "string option"

text \<open>
  The pattern \<^verbatim>\<open>/```(\w+)\n([\s\S]*?)```/\<close> at the head of \<open>s\<close>.  The greedy
  \<^verbatim>\<open>\w+\<close> takes the whole run of word characters: a shorter run would have to
  be followed by a line feed, and it is followed by a word character.  The captures
  are the language token and the body.
\<close>

definition matchBlock :: "string \<Rightarrow> ((string \<times> string) \<times> string) option" where
  "matchBlock s =
     (if take 3 s = fence then
        (let t = drop 3 s;
             w = takeWhile isWordChar t;
             u = dropWhile isWordChar t
         in if w \<noteq> [] \<and> take 1 u = [nl] then
              (case splitAtFence (drop 1 u) of
                 None \<Rightarrow> None
               | Some (body, rest) \<Rightarrow> Some ((w, body), rest))
            else None)
      else None)"

lemma splitAtFence_shorter:
  "splitAtFence s = Some (body, rest) \<Longrightarrow> length rest < length s"
proof (induction s arbitrary: body)
  case Nil
  then show ?case by simp
next
  case (Cons c cs)
  show ?case
  proof (cases "take 3 (c # cs) = fence")
    case True
    with Cons.prems show ?thesis by auto
  next
    case False
    with Cons.prems obtain b where "splitAtFence cs = Some (b, rest)"
      by (auto split: option.splits)
    with Cons.IH have "length rest < length cs" by blast
    then show ?thesis by simp
  qed
qed

lemma matchBlock_shorter:
  assumes "matchBlock s = Some (x, rest)"
  shows "length rest < length s"
proof -
  from assms obtain body where
    sp: "splitAtFence (drop 1 (dropWhile isWordChar (drop 3 s))) = Some (body, rest)"
    by (auto simp: matchBlock_def Let_def split: if_splits option.splits)
  have "length rest < length (drop 1 (dropWhile isWordChar (drop 3 s)))"
    using splitAtFence_shorter [OF sp] .
  also have "\<dots> \<le> length (dropWhile isWordChar (drop 3 s))" by simp
  also have "\<dots> \<le> length (drop 3 s)" by (rule length_dropWhile_le)
  also have "\<dots> \<le> length s" by simp
  finally show ?thesis .
qed

lemma search_shorter:
  assumes "\<And>t x r. m t = Some (x, r) \<Longrightarrow> length r < length t"
  shows "search m s = Some (pre, x, rest) \<Longrightarrow> length rest < length s"
proof (induction s arbitrary: pre)
  case Nil
  then show ?case using assms [of "[]"] by (force split: option.splits)
next
  case (Cons c cs)
  show ?case
  proof (cases "m (c # cs)")
    case (Some p)
    with Cons.prems show ?thesis using assms [of "c # cs"] by auto
  next
    case None
    with Cons.prems obtain b where "search m cs = Some (b, x, rest)"
      by (auto split: option.splits)
    with Cons.IH have "length rest < length cs" by blast
    then show ?thesis by simp
  qed
qed

text \<open>
  The loop \<^verbatim>\<open>while ((m = regex.exec(markdown)) !== null)\<close> with the \<^verbatim>\<open>g\<close>
  flag: each search starts where the last match ended.  Every match is at least
  eight characters long, so the loop ends.  \<open>push\<close> is the body of the loop: the
  block built from \<^verbatim>\<open>m[1]\<close> and \<^verbatim>\<open>m[2]\<close> (\<^verbatim>\<open>m[0]\<close> is the fence, the token,
  the line feed, the body and the fence again).
\<close>

function execAll :: "(string \<Rightarrow> string \<Rightarrow> 'b) \<Rightarrow> string \<Rightarrow> 'b list" where
  "execAll push s =
     (case search matchBlock s of
        None \<Rightarrow> []
      | Some (pre, (w, body), rest) \<Rightarrow> push w body # execAll push rest)"
  by pat_completeness auto
termination
proof (relation "measure (\<lambda>(push, s). length s)", goal_cases)
  case 1
  show ?case by simp
next
  case (2 push s x2 pre y x rest w body)
  then have "search matchBlock s = Some (pre, (w, body), rest)" by simp
  then have "length rest < length s"
    using search_shorter [of matchBlock s pre "(w, body)" rest] matchBlock_shorter
    by blast
  then show ?case by simp
qed

declare execAll.simps [simp del]

text \<open>
  The argument of \<^verbatim>\<open>extractCodeBlocks\<close> is any JavaScript value; the function
  looks only at whether it is a non-empty string.
\<close>

datatype js_value = Undefined | Null | Other | Str string

subsection \<open>pages/api/generate.js\<close>

definition pushBlock :: "string \<Rightarrow> string \<Rightarrow> block" where
  "pushBlock w body =
     \<lparr>lang = toLowerCase w, code = body, fullBlock = fence @ w @ [nl] @ body @ fence\<rparr>"

fun extractCodeBlocks :: "js_value \<Rightarrow> block list" where
  "extractCodeBlocks (Str s) = (if s = [] then [] else execAll pushBlock s)"
| "extractCodeBlocks _ = []"

subsection \<open>The filename-aware file\<close>

text \<open>
  Greedy \<^verbatim>\<open>\s*\<close> in front of a continuation \<open>k\<close>: the longest run of white space
  is tried first, then one character less, down to none.
\<close>

fun backtrackSpaces :: "(string \<Rightarrow> 'a option) \<Rightarrow> nat \<Rightarrow> string \<Rightarrow> 'a option" where
  "backtrackSpaces k 0 t = k t"
| "backtrackSpaces k (Suc n) t =
     (case k (drop (Suc n) t) of
        Some r \<Rightarrow> Some r
      | None \<Rightarrow> backtrackSpaces k n t)"

definition spacesThen :: "(string \<Rightarrow> 'a option) \<Rightarrow> string \<Rightarrow> 'a option" where
  "spacesThen k t = backtrackSpaces k (length (takeWhile isSpaceChar t)) t"

text \<open>
  \<^verbatim>\<open>(.+)\n\<close>: the greedy \<^verbatim>\<open>.+\<close> takes the whole run of characters that are not
  line terminators (a shorter run is followed by such a character, not by a line
  feed); the run is not empty and a line feed follows it.
\<close>

definition restOfLine :: "string \<Rightarrow> (string \<times> string) option" where
  "restOfLine u =
     (let p = takeWhile (\<lambda>c. \<not> isLineTerminator c) u;
          v = dropWhile (\<lambda>c. \<not> isLineTerminator c) u
      in if p \<noteq> [] \<and> take 1 v = [nl] then Some (p, drop 1 v) else None)"

text \<open>The pattern \<^verbatim>\<open>/file:\s*(.+)\n/i\<close> at the head of \<open>s\<close>; the capture is \<^verbatim>\<open>m[1]\<close>.\<close>

definition matchFileComment :: "string \<Rightarrow> (string \<times> string) option" where
  "matchFileComment s =
     (if ciPrefix ''file:'' s then spacesThen restOfLine (drop 5 s) else None)"

text \<open>\<^verbatim>\<open>fileMatch ? fileMatch[1].trim() : null\<close>, with \<open>None\<close> for \<^verbatim>\<open>null\<close>.\<close>

definition fileMatch :: "string \<Rightarrow> string option" where
  "fileMatch body =
     (case search matchFileComment body of
        None \<Rightarrow> None
      | Some (pre, m1, rest) \<Rightarrow> Some (trim m1))"

definition pushBlock_file :: "string \<Rightarrow> string \<Rightarrow> fblock" where
  "pushBlock_file w body =
     \<lparr>lang = toLowerCase w, code = body, fullBlock = fence @ w @ [nl] @ body @ fence,
      filename = fileMatch body\<rparr>"

fun extractCodeBlocks_file :: "js_value \<Rightarrow> fblock list" where
  "extractCodeBlocks_file (Str s) = (if s = [] then [] else execAll pushBlock_file s)"
| "extractCodeBlocks_file _ = []"

section \<open>Replacement\<close>

text \<open>
  \<^verbatim>\<open>String.prototype.replace\<close> with a string as replacement expands the patterns
  of that string (ECMAScript \<^verbatim>\<open>GetSubstitution\<close>).  The patterns of the source
  have no capture group, so the patterns that expand are \<^verbatim>\<open>$$\<close> (a dollar sign),
  \<^verbatim>\<open>$&\<close> (the matched text), \<^verbatim>\<open>$`\<close> (the text before the match) and
  \<^verbatim>\<open>$'\<close> (the text after the match); every other character, and a dollar sign
  followed by anything else, is copied.
\<close>

fun getSubstitution :: "string \<Rightarrow> string \<Rightarrow> string \<Rightarrow> string \<Rightarrow> string" where
  "getSubstitution matched pre post [] = []"
| "getSubstitution matched pre post [c] = [c]"
| "getSubstitution matched pre post (c # d # t) =
     (if c = CHR ''$'' \<and> d = CHR ''$'' then CHR ''$'' # getSubstitution matched pre post t
      else if c = CHR ''$'' \<and> d = CHR ''&'' then matched @ getSubstitution matched pre post t
      else if c = CHR ''$'' \<and> d = backtick then pre @ getSubstitution matched pre post t
      else if c = CHR ''$'' \<and> d = CHR 0x27 then post @ getSubstitution matched pre post t
      else c # getSubstitution matched pre post (d # t))"

text \<open>
  \<^verbatim>\<open>regex.test(base)\<close> followed by \<^verbatim>\<open>base.replace(regex, newBlock)\<close> for a
  pattern without the \<^verbatim>\<open>g\<close> flag: the leftmost match, if there is one, is replaced
  by the expansion of \<open>newBlock\<close>.  The matcher returns the text after the match;
  the matched text is what lies between.
\<close>

definition replaceFirst :: "(string \<Rightarrow> (unit \<times> string) option) \<Rightarrow> string \<Rightarrow> string \<Rightarrow> string \<times> bool" where
  "replaceFirst m base newBlock =
     (case search m base of
        None \<Rightarrow> (base, False)
      | Some (pre, u, post) \<Rightarrow>
          (let matched = take (length base - length pre - length post) (drop (length pre) base)
           in (pre @ getSubstitution matched pre post newBlock @ post, True)))"

subsection \<open>pages/api/generate.js\<close>

text \<open>
  The pattern \<^verbatim>\<open>new RegExp("```" + lang + "\\n[\\s\\S]*?```", "i")\<close> at the head of
  \<open>s\<close>.  The handler passes the \<^verbatim>\<open>lang\<close> of an extracted block, a lower-cased
  run of word characters, so \<open>lang\<close> stands in the pattern as a literal, compared
  without regard to case.
\<close>

definition matchLangBlock :: "string \<Rightarrow> string \<Rightarrow> (unit \<times> string) option" where
  "matchLangBlock lng s =
     (if take 3 s = fence \<and> ciPrefix lng (drop 3 s) \<and> take 1 (drop (3 + length lng) s) = [nl] then
        (case splitAtFence (drop (3 + length lng + 1) s) of
           None \<Rightarrow> None
         | Some (body, rest) \<Rightarrow> Some ((), rest))
      else None)"

definition replaceFirstCodeBlockByLang :: "string \<Rightarrow> string \<Rightarrow> string \<Rightarrow> string \<times> bool" where
  "replaceFirstCodeBlockByLang base lng newBlock = replaceFirst (matchLangBlock lng) base newBlock"

subsection \<open>The filename-aware file\<close>

text \<open>
  The pattern
  \<^verbatim>\<open>new RegExp("```[\\w-]+\\n[\\s\\S]*?file:\\s*" + escaped + "[\\s\\S]*?```", "i")\<close>,
  where \<^verbatim>\<open>escaped\<close> is the file name with a backslash in front of every syntax
  character of a pattern, so that the name stands in the pattern as a literal.
  \<open>markerThenFence\<close> is the part from \<^verbatim>\<open>file:\<close> on; the lazy wildcard in front of
  it makes it a leftmost search in the text after the header line.
\<close>

definition markerThenFence :: "string \<Rightarrow> string \<Rightarrow> (unit \<times> string) option" where
  "markerThenFence f s =
     (if ciPrefix ''file:'' s then
        spacesThen
          (\<lambda>u. if ciPrefix f u then
                 (case splitAtFence (drop (length f) u) of
                    None \<Rightarrow> None
                  | Some (y, rest) \<Rightarrow> Some ((), rest))
               else None)
          (drop 5 s)
      else None)"

definition matchFileBlock :: "string \<Rightarrow> string \<Rightarrow> (unit \<times> string) option" where
  "matchFileBlock f s =
     (if take 3 s = fence then
        (let t = drop 3 s;
             h = takeWhile isWordDash t;
             u = dropWhile isWordDash t
         in if h \<noteq> [] \<and> take 1 u = [nl] then
              (case search (markerThenFence f) (drop 1 u) of
                 None \<Rightarrow> None
               | Some (x, m, rest) \<Rightarrow> Some ((), rest))
            else None)
      else None)"

text \<open>\<^verbatim>\<open>!filename\<close> holds for \<^verbatim>\<open>null\<close> and for the empty string.\<close>

fun replaceBlockByFilename :: "string \<Rightarrow> string option \<Rightarrow> string \<Rightarrow> string \<times> bool" where
  "replaceBlockByFilename base None newBlock = (base, False)"
| "replaceBlockByFilename base (Some f) newBlock =
     (if f = [] then (base, False) else replaceFirst (matchFileBlock f) base newBlock)"

section \<open>The handlers\<close>

text \<open>
  The handlers are modelled from the point where the answer of the generative
  model has arrived: \<open>previousCode\<close> is the text of the request (the empty string
  when the request has none) and \<open>fullOutput\<close> is the text the model returned.
  The method and prompt checks in front are not part of the merge.  (The second
  file calls the text of the model \<^verbatim>\<open>output\<close>; it is \<open>modelOutput\<close> here, since
  \<open>output\<close> is a field of the response.)
\<close>

datatype error = EmptyOutput

text \<open>\<^verbatim>\<open>"```" + lang + "\n" + blk.code + "\n```"\<close>\<close>

definition newFullBlock :: "'a block_scheme \<Rightarrow> string" where
  "newFullBlock blk = fence @ lang blk @ [nl] @ code blk @ [nl] @ fence"

subsection \<open>pages/api/generate.js\<close>

text \<open>
  \<^verbatim>\<open>replacedLangs\<close> is a plain object used as a set of keys; it is modelled as
  the list of its own keys in the order they were added.  A read
  \<^verbatim>\<open>replacedLangs[lang]\<close> also finds what the object inherits from
  \<^verbatim>\<open>Object.prototype\<close>, and all of that is truthy.  A write
  \<^verbatim>\<open>replacedLangs[lang] = true\<close> adds an own key, but for \<^verbatim>\<open>__proto__\<close>, whose
  setter ignores a value that is not an object.
\<close>

definition objectPrototypeKeys :: "string list" where
  "objectPrototypeKeys =
     [''constructor'', ''__defineGetter__'', ''__defineSetter__'', ''hasOwnProperty'',
      ''__lookupGetter__'', ''__lookupSetter__'', ''isPrototypeOf'', ''propertyIsEnumerable'',
      ''toString'', ''valueOf'', ''__proto__'', ''toLocaleString'']"

definition truthyAt :: "string list \<Rightarrow> string \<Rightarrow> bool" where
  "truthyAt keys k = (k \<in> set keys \<or> k \<in> set objectPrototypeKeys)"

definition setTrue :: "string list \<Rightarrow> string \<Rightarrow> string list" where
  "setTrue keys k = (if k \<in> set keys \<or> k = ''__proto__'' then keys else keys @ [k])"

text \<open>
  \<^verbatim>\<open>Object.keys\<close> lists the own keys that are array indices first, in ascending
  numeric order, and then the other keys in the order they were added.
\<close>

definition isDigit :: "char \<Rightarrow> bool" where
  "isDigit c = (48 \<le> code_unit c \<and> code_unit c \<le> 57)"

definition decimal :: "string \<Rightarrow> nat" where
  "decimal k = foldl (\<lambda>n c. 10 * n + (code_unit c - 48)) 0 k"

definition isArrayIndex :: "string \<Rightarrow> bool" where
  "isArrayIndex k =
     (k \<noteq> [] \<and> list_all isDigit k \<and> (k = ''0'' \<or> hd k \<noteq> CHR ''0'') \<and> decimal k < 2 ^ 32 - 1)"

definition objectKeys :: "string list \<Rightarrow> string list" where
  "objectKeys keys =
     sort_key decimal (filter isArrayIndex keys) @ filter (\<lambda>k. \<not> isArrayIndex k) keys"

text \<open>
  The body of the loop over \<^verbatim>\<open>aiBlocks\<close>; the state is the pair of \<^verbatim>\<open>merged\<close>
  and \<^verbatim>\<open>replacedLangs\<close>.
\<close>

definition mergeStep :: "string \<times> string list \<Rightarrow> block \<Rightarrow> string \<times> string list" where
  "mergeStep st blk =
     (let merged = fst st;
          keys = snd st;
          new = newFullBlock blk
      in if \<not> truthyAt keys (lang blk) then
           (let (updated, replaced) = replaceFirstCodeBlockByLang merged (lang blk) new
            in if replaced then (updated, setTrue keys (lang blk))
               else (merged @ [nl, nl] @ new, setTrue keys (lang blk)))
         else (merged @ [nl, nl] @ new, setTrue keys (lang blk)))"

record response =
  "output" :: string
  aiRaw :: string
  aiBlocksCount :: nat
  replacedLangs :: "string list"

definition handler :: "string \<Rightarrow> string \<Rightarrow> error + response" where
  "handler previousCode fullOutput =
     (if fullOutput = [] \<or> trim fullOutput = [] then Inl EmptyOutput
      else
        (let aiBlocks = extractCodeBlocks (Str fullOutput);
             st = foldl mergeStep (previousCode, []) aiBlocks;
             merged = (if aiBlocks = [] then fst st @ [nl, nl] @ fullOutput else fst st)
         in Inr \<lparr>output = merged, aiRaw = fullOutput, aiBlocksCount = length aiBlocks,
                 replacedLangs = objectKeys (snd st)\<rparr>))"

subsection \<open>The filename-aware file\<close>

definition mergeStep_file :: "string \<Rightarrow> fblock \<Rightarrow> string" where
  "mergeStep_file merged blk =
     (let new = newFullBlock blk;
          (merged1, replaced) =
             (if filename blk \<noteq> None \<and> filename blk \<noteq> Some []
              then replaceBlockByFilename merged (filename blk) new
              else (merged, False))
      in if \<not> replaced then merged1 @ [nl, nl] @ new else merged1)"

record response_file =
  output_file :: string
  aiRaw_file :: string
  aiBlocksCount_file :: nat

definition handler_file :: "string \<Rightarrow> string \<Rightarrow> error + response_file" where
  "handler_file previousCode modelOutput =
     (if trim modelOutput = [] then Inl EmptyOutput
      else
        (let aiBlocks = extractCodeBlocks_file (Str modelOutput);
             merged = foldl mergeStep_file previousCode aiBlocks;
             merged = (if aiBlocks = [] then merged @ [nl, nl] @ modelOutput else merged)
         in Inr \<lparr>output_file = merged, aiRaw_file = modelOutput,
                 aiBlocksCount_file = length aiBlocks\<rparr>))"

section \<open>Notions used to state the properties\<close>

text \<open>
  A text is fence-free when it holds no three backticks in a row.  A body is plain
  when it is fence-free and does not end in a backtick, so that the first three
  backticks of the body followed by a fence are the fence.  A word token is a
  non-empty run of word characters.
\<close>

definition fenceFree :: "string \<Rightarrow> bool" where
  "fenceFree t = (splitAtFence t = None)"

definition plainBody :: "string \<Rightarrow> bool" where
  "plainBody b = (fenceFree b \<and> (b = [] \<or> last b \<noteq> backtick))"

definition wordToken :: "string \<Rightarrow> bool" where
  "wordToken w = (w \<noteq> [] \<and> list_all isWordChar w)"

text \<open>
  A document with its blocks laid out: a text \<open>t0\<close> in front and then, for each
  block, the language token, the body and the text that follows the block.  The
  document is well formed when the texts between the blocks are fence-free, the
  tokens are word tokens and the bodies are plain; then the blocks laid out are the
  fenced blocks of the document, distinct and not overlapping, in source order.
\<close>

fun renderDoc :: "string \<Rightarrow> (string \<times> string \<times> string) list \<Rightarrow> string" where
  "renderDoc t0 [] = t0"
| "renderDoc t0 ((L, body, t) # segs) = t0 @ fence @ L @ [nl] @ body @ fence @ renderDoc t segs"

fun wellFormedDoc :: "string \<Rightarrow> (string \<times> string \<times> string) list \<Rightarrow> bool" where
  "wellFormedDoc t0 [] = fenceFree t0"
| "wellFormedDoc t0 ((L, body, t) # segs) =
     (fenceFree t0 \<and> wordToken L \<and> plainBody body \<and> wellFormedDoc t segs)"



text \<open>
  A step of the by-language loop replaces in place when it takes the branch that
  ends in \<^verbatim>\<open>continue\<close>: the language is not yet a truthy key of
  \<^verbatim>\<open>replacedLangs\<close> and the pattern matches.  \<open>inPlace\<close> runs the loop and
  lists the languages of the steps that replace in place.
\<close>

definition replacesInPlace :: "string \<times> string list \<Rightarrow> block \<Rightarrow> bool" where
  "replacesInPlace st blk =
     (\<not> truthyAt (snd st) (lang blk)
      \<and> snd (replaceFirstCodeBlockByLang (fst st) (lang blk) (newFullBlock blk)))"

fun inPlace :: "string \<times> string list \<Rightarrow> block list \<Rightarrow> string list" where
  "inPlace st [] = []"
| "inPlace st (blk # blks) =
     (if replacesInPlace st blk then [lang blk] else []) @ inPlace (mergeStep st blk) blks"

section \<open>Basic facts about the extraction loop\<close>

lemma execAll_map: "execAll push s = map (\<lambda>(w, body). push w body) (execAll Pair s)"
proof (induction push s rule: execAll.induct)
  case (1 push s)
  show ?case
  proof (cases "search matchBlock s")
    case None
    then show ?thesis by (simp add: execAll.simps [of _ s])
  next
    case (Some r)
    obtain pre w body rest where r: "r = (pre, (w, body), rest)"
      by (metis prod.exhaust)
    from 1 [OF Some [unfolded r] refl refl]
    show ?thesis using Some r by (simp add: execAll.simps [of _ s])
  qed
qed

lemma execAll_Nil_iff: "execAll push s = [] \<longleftrightarrow> search matchBlock s = None"
  by (subst execAll.simps) (auto split: option.splits)

lemma objectKeys_Nil: "objectKeys [] = []"
  by (simp add: objectKeys_def)

section \<open>Scanning lemmas\<close>

lemma splitAtFence_Some: "splitAtFence s = Some (b, r) \<Longrightarrow> s = b @ fence @ r"
proof (induction s arbitrary: b)
  case Nil
  then show ?case by simp
next
  case (Cons c cs)
  show ?case
  proof (cases "take 3 (c # cs) = fence")
    case True
    with Cons.prems have "b = []" "r = drop 3 (c # cs)" by auto
    with True show ?thesis by (metis append_Nil append_take_drop_id)
  next
    case False
    with Cons.prems obtain b' where "splitAtFence cs = Some (b', r)" "b = c # b'"
      by (auto split: option.splits)
    with Cons.IH show ?thesis by auto
  qed
qed

lemma fenceFree_Cons: "fenceFree (c # cs) \<Longrightarrow> fenceFree cs"
  by (auto simp: fenceFree_def split: if_splits option.splits)

lemma fenceFree_take3: "fenceFree (c # cs) \<Longrightarrow> take 3 (c # cs) \<noteq> fence"
  by (auto simp: fenceFree_def split: if_splits option.splits)

lemma fenceFree_iff: "fenceFree t \<longleftrightarrow> (\<nexists>a b. t = a @ fence @ b)"
proof
  assume ff: "fenceFree t"
  show "\<nexists>a b. t = a @ fence @ b"
  proof
    assume "\<exists>a b. t = a @ fence @ b"
    then obtain a b where "t = a @ fence @ b" by blast
    with ff show False
    proof (induction a arbitrary: t)
      case Nil
      then show ?case by (auto simp: fenceFree_def fence_def)
    next
      case (Cons x a)
      then show ?case using fenceFree_Cons by auto
    qed
  qed
next
  assume "\<nexists>a b. t = a @ fence @ b"
  then show "fenceFree t"
    unfolding fenceFree_def
    by (cases "splitAtFence t") (auto dest: splitAtFence_Some)
qed

lemma take3_overlap:
  assumes "fenceFree (c # cs)" and "take 3 (c # cs @ fence @ r) = fence"
  shows "c = backtick \<and> last (c # cs) = backtick \<and> length (c # cs) < 3"
proof -
  have len: "length (c # cs) < 3"
  proof (rule ccontr)
    assume "\<not> length (c # cs) < 3"
    then have "take 3 (c # cs @ fence @ r) = take 3 (c # cs)" by simp
    with assms show False using fenceFree_take3 by metis
  qed
  then consider "cs = []" | d where "cs = [d]"
    by (cases cs; cases "tl cs") auto
  then show ?thesis
    using assms(2) len by cases (auto simp: fence_def)
qed

lemma splitAtFence_plain: "plainBody b \<Longrightarrow> splitAtFence (b @ fence @ r) = Some (b, r)"
proof (induction b)
  case Nil
  then show ?case by (simp add: fence_def)
next
  case (Cons c cs)
  from Cons.prems have ff: "fenceFree (c # cs)" and lst: "last (c # cs) \<noteq> backtick"
    by (auto simp: plainBody_def)
  have nt: "take 3 (c # cs @ fence @ r) \<noteq> fence"
    using take3_overlap [OF ff] lst by blast
  have "plainBody cs"
    using ff lst fenceFree_Cons [OF ff] by (auto simp: plainBody_def)
  with Cons.IH have "splitAtFence (cs @ fence @ r) = Some (cs, r)" by blast
  with nt show ?case by simp
qed

lemma search_hit: "m s = Some (x, r) \<Longrightarrow> search m s = Some ([], x, r)"
  by (cases s) auto

lemma search_skip:
  assumes "\<And>p q. t = p @ q \<Longrightarrow> q \<noteq> [] \<Longrightarrow> m (q @ s) = None"
  shows "search m (t @ s) = map_option (\<lambda>(pre, x, r). (t @ pre, x, r)) (search m s)"
  using assms
proof (induction t)
  case Nil
  then show ?case by (cases "search m s") auto
next
  case (Cons c t)
  have "m ((c # t) @ s) = None" using Cons.prems [of "[]" "c # t"] by simp
  moreover have "search m (t @ s) = map_option (\<lambda>(pre, x, r). (t @ pre, x, r)) (search m s)"
  proof (rule Cons.IH)
    fix p q assume "t = p @ q" "q \<noteq> []"
    then show "m (q @ s) = None" using Cons.prems [of "c # p" q] by simp
  qed
  ultimately show ?case by (cases "search m s") auto
qed

lemma backtick_not_word: "\<not> isWordChar backtick"
  by (simp add: isWordChar_def backtick_def code_unit_def)

lemma nl_not_word: "\<not> isWordChar nl"
  by (simp add: isWordChar_def nl_def code_unit_def)

lemma canonicalize_backtick: "canonicalize backtick = backtick"
  by (simp add: canonicalize_def backtick_def code_unit_def)

lemma canonicalize_word_not_backtick:
  assumes "isWordChar c" shows "canonicalize c \<noteq> backtick"
proof
  assume eq: "canonicalize c = backtick"
  define n where "n = code_unit c"
  show False
  proof (cases "97 \<le> n \<and> n \<le> 122")
    case True
    then have "canonicalize c = char_of (n - 32)"
      by (simp add: canonicalize_def n_def)
    with eq have "code_unit (char_of (n - 32)) = code_unit backtick" by simp
    then have m: "(n - 32) mod 256 = 96" by (simp add: backtick_def code_unit_def)
    from True have "n - 32 < 256" by arith
    then have "(n - 32) mod 256 = n - 32" by (rule mod_less)
    with m True show False by arith
  next
    case False
    with assms have "canonicalize c = c"
      by (auto simp: canonicalize_def isWordChar_def n_def Let_def)
    with eq assms backtick_not_word show False by simp
  qed
qed

lemma length_fence: "length fence = 3"
  by (simp add: fence_def)

lemma ciEq_length: "ciEq a b \<Longrightarrow> length a = length b"
  unfolding ciEq_def by (metis length_map)

lemma ciPrefix_append: "ciEq a p \<Longrightarrow> ciPrefix p (a @ s)"
  by (frule ciEq_length) (simp add: ciPrefix_def)

lemma ciPrefix_backtick:
  assumes "wordToken l" shows "\<not> ciPrefix l (backtick # s)"
proof
  assume cp: "ciPrefix l (backtick # s)"
  from assms obtain c cs where l: "l = c # cs" and w: "isWordChar c"
    by (cases l) (auto simp: wordToken_def)
  from cp l have "canonicalize backtick = canonicalize c"
    by (simp add: ciPrefix_def ciEq_def)
  with canonicalize_word_not_backtick [OF w] canonicalize_backtick show False by simp
qed

text \<open>No match of the by-language pattern starts inside a fence-free text that a fence follows.\<close>

lemma matchLangBlock_overlap:
  assumes ff: "fenceFree t" and tq: "t = p @ q" and q: "q \<noteq> []" and w: "wordToken l"
  shows "matchLangBlock l (q @ fence @ s) = None"
proof (cases "take 3 (q @ fence @ s) = fence")
  case False
  then show ?thesis by (simp add: matchLangBlock_def)
next
  case True
  from q obtain c cs where qc: "q = c # cs" by (cases q) auto
  have "fenceFree q" using ff tq by (auto simp: fenceFree_iff) (metis append.assoc)
  with True qc have len: "length q < 3" using take3_overlap [of c cs s] by simp
  then have "drop 3 (q @ fence @ s) = drop (3 - length q) (fence @ s)" by simp
  moreover from len q obtain r where "drop (3 - length q) (fence @ s) = backtick # r"
    by (cases q; cases "tl q") (auto simp: fence_def)
  ultimately have "\<not> ciPrefix l (drop 3 (q @ fence @ s))"
    using ciPrefix_backtick [OF w] by simp
  then show ?thesis by (simp add: matchLangBlock_def)
qed

lemma matchLangBlock_here:
  assumes "ciEq L l" and "plainBody body"
  shows "matchLangBlock l (fence @ L @ [nl] @ body @ fence @ rest) = Some ((), rest)"
proof -
  have len: "length L = length l" using assms(1) by (rule ciEq_length)
  have "take 3 (fence @ L @ [nl] @ body @ fence @ rest) = fence" by (simp add: length_fence)
  moreover have d3: "drop 3 (fence @ L @ [nl] @ body @ fence @ rest) = L @ [nl] @ body @ fence @ rest"
    by (simp add: length_fence)
  moreover have "ciPrefix l (L @ [nl] @ body @ fence @ rest)"
    using assms(1) by (rule ciPrefix_append)
  moreover have "drop (3 + length l) (fence @ L @ [nl] @ body @ fence @ rest) = [nl] @ body @ fence @ rest"
    using len by (simp add: length_fence)
  moreover have "drop (3 + length l + 1) (fence @ L @ [nl] @ body @ fence @ rest) = body @ fence @ rest"
    using len by (simp add: length_fence)
  ultimately show ?thesis
    using splitAtFence_plain [OF assms(2), of rest]
    by (simp add: matchLangBlock_def)
qed

lemma replaceFirst_Some:
  assumes "search m base = Some (pre, u, post)" and "base = pre @ M @ post"
  shows "replaceFirst m base new = (pre @ getSubstitution M pre post new @ post, True)"
proof -
  have "take (length base - length pre - length post) (drop (length pre) base) = M"
    by (simp add: assms(2))
  with assms(1) show ?thesis by (simp add: replaceFirst_def)
qed


lemma search_lang_first:
  assumes ff: "fenceFree t0" and w: "wordToken l" and ci: "ciEq L l" and pb: "plainBody body"
  shows "search (matchLangBlock l) (t0 @ fence @ L @ [nl] @ body @ fence @ rest) = Some (t0, (), rest)"
proof -
  let ?s = "fence @ L @ [nl] @ body @ fence @ rest"
  have hit: "search (matchLangBlock l) ?s = Some ([], (), rest)"
    using matchLangBlock_here [OF ci pb, of rest] by (rule search_hit)
  have "search (matchLangBlock l) (t0 @ ?s) =
          map_option (\<lambda>(pre, x, r). (t0 @ pre, x, r)) (search (matchLangBlock l) ?s)"
  proof (rule search_skip)
    fix p q assume "t0 = p @ q" "q \<noteq> []"
    then show "matchLangBlock l (q @ ?s) = None"
      by (rule matchLangBlock_overlap [OF ff _ _ w])
  qed
  with hit show ?thesis by simp
qed

lemma replaceFirstCodeBlockByLang_first:
  assumes ff: "fenceFree t0" and w: "wordToken l" and ci: "ciEq L l" and pb: "plainBody body"
  shows "replaceFirstCodeBlockByLang (t0 @ fence @ L @ [nl] @ body @ fence @ rest) l new =
           (t0 @ getSubstitution (fence @ L @ [nl] @ body @ fence) t0 rest new @ rest, True)"
  unfolding replaceFirstCodeBlockByLang_def
  by (rule replaceFirst_Some [OF search_lang_first [OF ff w ci pb]]) simp

lemma search_Some_decomp:
  "search m s = Some (pre, x, rest) \<Longrightarrow> \<exists>t. s = pre @ t \<and> m t = Some (x, rest)"
proof (induction s arbitrary: pre)
  case Nil
  then show ?case by (auto split: option.splits)
next
  case (Cons c cs)
  show ?case
  proof (cases "m (c # cs)")
    case (Some r)
    with Cons.prems show ?thesis by auto
  next
    case None
    with Cons.prems obtain p where p: "search m cs = Some (p, x, rest)" "pre = c # p"
      by (auto split: option.splits)
    from Cons.IH [OF p(1)] obtain t where "cs = p @ t" "m t = Some (x, rest)" by blast
    with p(2) show ?thesis by auto
  qed
qed

lemma search_None_iff: "search m s = None \<longleftrightarrow> (\<forall>p t. s = p @ t \<longrightarrow> m t = None)"
proof (induction s)
  case Nil
  then show ?case by (auto split: option.splits)
next
  case (Cons c cs)
  show ?case
  proof
    assume n: "search m (c # cs) = None"
    then have a: "m (c # cs) = None" and b: "search m cs = None"
      by (auto split: option.splits)
    show "\<forall>p t. c # cs = p @ t \<longrightarrow> m t = None"
    proof (intro allI impI)
      fix p t assume e: "c # cs = p @ t"
      show "m t = None"
      proof (cases p)
        case Nil
        with e a show ?thesis by simp
      next
        case (Cons d p')
        with e have "cs = p' @ t" by simp
        with b Cons.IH show ?thesis by blast
      qed
    qed
  next
    assume h: "\<forall>p t. c # cs = p @ t \<longrightarrow> m t = None"
    then have a: "m (c # cs) = None" by (metis append_Nil)
    have "\<forall>p t. cs = p @ t \<longrightarrow> m t = None"
      using h by (metis append_Cons)
    with Cons.IH have "search m cs = None" by blast
    with a show "search m (c # cs) = None" by simp
  qed
qed

lemma takeWhile_token:
  assumes "list_all P w" and "\<not> P c"
  shows "takeWhile P (w @ c # s) = w" and "dropWhile P (w @ c # s) = c # s"
  using assms by (induction w) auto

lemma takeWhile_decomp: "s = takeWhile P s @ dropWhile P s"
  by simp

lemma matchBlock_Some:
  assumes "matchBlock t = Some ((w, body), rest)"
  shows "t = fence @ w @ [nl] @ body @ fence @ rest \<and> wordToken w"
proof -
  let ?d = "drop 3 t"
  from assms have f: "take 3 t = fence"
    by (auto simp: matchBlock_def split: if_splits)
  from assms f have w: "w = takeWhile isWordChar ?d" and wne: "w \<noteq> []"
    and n: "take 1 (dropWhile isWordChar ?d) = [nl]"
    and sp: "splitAtFence (drop 1 (dropWhile isWordChar ?d)) = Some (body, rest)"
    by (auto simp: matchBlock_def Let_def split: if_splits option.splits)
  have "t = take 3 t @ ?d" by simp
  also have "?d = takeWhile isWordChar ?d @ dropWhile isWordChar ?d" by simp
  also have "dropWhile isWordChar ?d = take 1 (dropWhile isWordChar ?d) @ drop 1 (dropWhile isWordChar ?d)"
    by simp
  also have "drop 1 (dropWhile isWordChar ?d) = body @ fence @ rest"
    using sp by (rule splitAtFence_Some)
  finally have "t = fence @ w @ [nl] @ body @ fence @ rest"
    using f w n by simp
  moreover have "list_all isWordChar w"
    unfolding w list_all_iff by (auto dest: set_takeWhileD)
  ultimately show ?thesis using wne by (simp add: wordToken_def)
qed

lemma execAll_mem:
  "b \<in> set (execAll push s) \<Longrightarrow>
     \<exists>pre w body rest. s = pre @ fence @ w @ [nl] @ body @ fence @ rest \<and> wordToken w \<and> b = push w body"
proof (induction push s rule: execAll.induct)
  case (1 push s)
  show ?case
  proof (cases "search matchBlock s")
    case None
    with "1.prems" show ?thesis by (simp add: execAll.simps [of _ s])
  next
    case (Some r)
    obtain pre w body rest where r: "r = (pre, (w, body), rest)"
      by (metis prod.exhaust)
    have sr: "search matchBlock s = Some (pre, (w, body), rest)"
      using Some unfolding r .
    from search_Some_decomp [OF sr]
    obtain t where t: "s = pre @ t" "matchBlock t = Some ((w, body), rest)"
      by auto
    from matchBlock_Some [OF t(2)] have tt: "t = fence @ w @ [nl] @ body @ fence @ rest" and ww: "wordToken w"
      by auto
    from "1.prems" sr have "b = push w body \<or> b \<in> set (execAll push rest)"
      by (simp add: execAll.simps [of _ s])
    then show ?thesis
    proof
      assume "b = push w body"
      with t(1) tt ww show ?thesis by blast
    next
      assume "b \<in> set (execAll push rest)"
      from "1.IH" [OF sr refl refl refl this]
      obtain pre' w' body' rest' where
        "rest = pre' @ fence @ w' @ [nl] @ body' @ fence @ rest'" "wordToken w'" "b = push w' body'"
        by blast
      then have "s = (pre @ fence @ w @ [nl] @ body @ fence @ pre') @ fence @ w' @ [nl] @ body' @ fence @ rest'"
        using t(1) tt by simp
      with \<open>wordToken w'\<close> \<open>b = push w' body'\<close> show ?thesis by blast
    qed
  qed
qed

lemma fenceFree_suffix: "fenceFree (p @ q) \<Longrightarrow> fenceFree q"
  by (auto simp: fenceFree_iff) (metis append.assoc)

lemma fenceFree_no_fence_head: "fenceFree q \<Longrightarrow> take 3 q \<noteq> fence"
  by (cases q) (auto simp: fence_def dest: fenceFree_take3)

lemma overlap_backtick:
  assumes ff: "fenceFree t" and tq: "t = p @ q" and q: "q \<noteq> []"
    and tk: "take 3 (q @ fence @ s) = fence"
  shows "\<exists>r. drop 3 (q @ fence @ s) = backtick # r"
proof -
  from q obtain c cs where qc: "q = c # cs" by (cases q) auto
  have "fenceFree q" using ff tq fenceFree_suffix by blast
  with tk qc have len: "length q < 3" using take3_overlap [of c cs s] by simp
  then have "drop 3 (q @ fence @ s) = drop (3 - length q) (fence @ s)" by simp
  moreover from len q obtain r where "drop (3 - length q) (fence @ s) = backtick # r"
    by (cases q; cases "tl q") (auto simp: fence_def)
  ultimately show ?thesis by simp
qed

lemma matchBlock_overlap:
  assumes ff: "fenceFree t" and tq: "t = p @ q" and q: "q \<noteq> []"
  shows "matchBlock (q @ fence @ s) = None"
proof (cases "take 3 (q @ fence @ s) = fence")
  case False
  then show ?thesis by (simp add: matchBlock_def)
next
  case True
  from overlap_backtick [OF ff tq q True] obtain r where "drop 3 (q @ fence @ s) = backtick # r" ..
  then have "takeWhile isWordChar (drop 3 (q @ fence @ s)) = []"
    using backtick_not_word by simp
  then show ?thesis by (simp add: matchBlock_def Let_def)
qed

lemma matchBlock_here:
  assumes "wordToken L" and "plainBody body"
  shows "matchBlock (fence @ L @ [nl] @ body @ fence @ rest) = Some ((L, body), rest)"
proof -
  let ?s = "fence @ L @ [nl] @ body @ fence @ rest"
  from assms(1) have la: "list_all isWordChar L" and ne: "L \<noteq> []" by (auto simp: wordToken_def)
  have "take 3 ?s = fence" by (simp add: length_fence)
  moreover have d: "drop 3 ?s = L @ nl # body @ fence @ rest" by (simp add: length_fence)
  moreover have "takeWhile isWordChar (L @ nl # body @ fence @ rest) = L"
    using la nl_not_word by (rule takeWhile_token)
  moreover have "dropWhile isWordChar (L @ nl # body @ fence @ rest) = nl # body @ fence @ rest"
    using la nl_not_word by (rule takeWhile_token)
  ultimately show ?thesis
    using ne splitAtFence_plain [OF assms(2), of rest]
    by (simp add: matchBlock_def Let_def)
qed

lemma search_matchBlock_first:
  assumes ff: "fenceFree t0" and w: "wordToken L" and pb: "plainBody body"
  shows "search matchBlock (t0 @ fence @ L @ [nl] @ body @ fence @ rest) = Some (t0, (L, body), rest)"
proof -
  let ?s = "fence @ L @ [nl] @ body @ fence @ rest"
  have hit: "search matchBlock ?s = Some ([], (L, body), rest)"
    using matchBlock_here [OF w pb, of rest] by (rule search_hit)
  have "search matchBlock (t0 @ ?s) =
          map_option (\<lambda>(pre, x, r). (t0 @ pre, x, r)) (search matchBlock ?s)"
  proof (rule search_skip)
    fix p q assume "t0 = p @ q" "q \<noteq> []"
    then show "matchBlock (q @ ?s) = None"
      by (rule matchBlock_overlap [OF ff])
  qed
  with hit show ?thesis by simp
qed

lemma search_matchBlock_fenceFree:
  assumes "fenceFree t" shows "search matchBlock t = None"
proof -
  have "matchBlock q = None" if "t = p @ q" for p q
  proof -
    have "fenceFree q" using assms that fenceFree_suffix by blast
    then have "take 3 q \<noteq> fence" by (rule fenceFree_no_fence_head)
    then show ?thesis by (simp add: matchBlock_def)
  qed
  then show ?thesis by (simp add: search_None_iff)
qed

lemma execAll_wellFormed:
  "wellFormedDoc t0 segs \<Longrightarrow>
     execAll push (renderDoc t0 segs) = map (\<lambda>(L, body, t). push L body) segs"
proof (induction segs arbitrary: t0)
  case Nil
  then show ?case
    by (simp add: execAll_Nil_iff search_matchBlock_fenceFree)
next
  case (Cons seg segs)
  obtain L body t where seg: "seg = (L, body, t)" by (metis prod.exhaust)
  from Cons.prems seg have ff: "fenceFree t0" and w: "wordToken L" and pb: "plainBody body"
    and wf: "wellFormedDoc t segs" by auto
  have "search matchBlock (t0 @ fence @ L @ [nl] @ body @ fence @ renderDoc t segs) =
          Some (t0, (L, body), renderDoc t segs)"
    using ff w pb by (rule search_matchBlock_first)
  then have "execAll push (renderDoc t0 (seg # segs)) = push L body # execAll push (renderDoc t segs)"
    using seg by (subst execAll.simps) simp
  with Cons.IH [OF wf] seg show ?case by simp
qed

section \<open>The filename comment\<close>

lemma backtrackSpaces_Some:
  "backtrackSpaces k n t = Some r \<Longrightarrow> \<exists>j\<le>n. k (drop j t) = Some r"
proof (induction n)
  case 0
  then show ?case by simp
next
  case (Suc n)
  show ?case
  proof (cases "k (drop (Suc n) t)")
    case None
    with Suc.prems have "backtrackSpaces k n t = Some r" by simp
    with Suc.IH obtain j where "j \<le> n" "k (drop j t) = Some r" by blast
    then show ?thesis using le_Suc_eq by blast
  next
    case (Some a)
    with Suc.prems have "a = r" by simp
    with Some show ?thesis by blast
  qed
qed

lemma backtrackSpaces_complete:
  "j \<le> n \<Longrightarrow> k (drop j t) \<noteq> None \<Longrightarrow> backtrackSpaces k n t \<noteq> None"
proof (induction n)
  case 0
  then show ?case by simp
next
  case (Suc n)
  show ?case
  proof (cases "k (drop (Suc n) t)")
    case None
    with Suc.prems have "j \<le> n" by (cases "j = Suc n") auto
    with Suc have "backtrackSpaces k n t \<noteq> None" by blast
    with None show ?thesis by simp
  next
    case (Some a)
    then show ?thesis by simp
  qed
qed

lemma spacesThen_Some:
  assumes "spacesThen k t = Some r"
  shows "\<exists>ws u. t = ws @ u \<and> list_all isSpaceChar ws \<and> k u = Some r"
proof -
  from backtrackSpaces_Some [OF assms [unfolded spacesThen_def]]
  obtain j where j: "j \<le> length (takeWhile isSpaceChar t)" "k (drop j t) = Some r"
    by auto
  have "take j (takeWhile isSpaceChar t @ dropWhile isSpaceChar t) = take j (takeWhile isSpaceChar t)"
    using j(1) by (subst take_append) simp
  then have "take j t = take j (takeWhile isSpaceChar t)" by simp
  then have "list_all isSpaceChar (take j t)"
    unfolding list_all_iff by (metis in_set_takeD set_takeWhileD)
  moreover have "t = take j t @ drop j t" by simp
  ultimately show ?thesis using j(2) by blast
qed

lemma spacesThen_complete:
  assumes "list_all isSpaceChar ws" and "k u \<noteq> None"
  shows "spacesThen k (ws @ u) \<noteq> None"
proof -
  have "takeWhile isSpaceChar (ws @ u) = ws @ takeWhile isSpaceChar u"
    using assms(1) by (simp add: list_all_iff takeWhile_append2)
  then have "length ws \<le> length (takeWhile isSpaceChar (ws @ u))" by simp
  moreover have "k (drop (length ws) (ws @ u)) \<noteq> None" using assms(2) by simp
  ultimately show ?thesis
    unfolding spacesThen_def by (rule backtrackSpaces_complete)
qed

lemma nl_lineTerminator: "isLineTerminator nl"
  by (simp add: isLineTerminator_def nl_def code_unit_def)

lemma restOfLine_Some:
  assumes "restOfLine u = Some (p, v)"
  shows "u = p @ nl # v \<and> p \<noteq> [] \<and> list_all (\<lambda>c. \<not> isLineTerminator c) p"
proof -
  let ?P = "\<lambda>c. \<not> isLineTerminator c"
  from assms have p: "p = takeWhile ?P u" "p \<noteq> []"
    and n: "take 1 (dropWhile ?P u) = [nl]" and v: "v = drop 1 (dropWhile ?P u)"
    by (auto simp: restOfLine_def Let_def split: if_splits)
  from n v have "dropWhile ?P u = nl # v"
    by (cases "dropWhile ?P u") auto
  moreover have "u = takeWhile ?P u @ dropWhile ?P u" by simp
  ultimately have "u = p @ nl # v" using p(1) by simp
  moreover have "list_all ?P p"
    unfolding p list_all_iff by (auto dest: set_takeWhileD)
  ultimately show ?thesis using p(2) by simp
qed

lemma restOfLine_complete:
  assumes "p \<noteq> []" and "list_all (\<lambda>c. \<not> isLineTerminator c) p"
  shows "restOfLine (p @ nl # v) = Some (p, v)"
proof -
  have "takeWhile (\<lambda>c. \<not> isLineTerminator c) (p @ nl # v) = p"
    using assms(2) nl_lineTerminator by (intro takeWhile_token) auto
  moreover have "dropWhile (\<lambda>c. \<not> isLineTerminator c) (p @ nl # v) = nl # v"
    using assms(2) nl_lineTerminator by (intro takeWhile_token) auto
  ultimately show ?thesis using assms(1) by (simp add: restOfLine_def)
qed

lemma length_file: "length ''file:'' = 5"
  by simp


lemma ciPrefix_drop:
  assumes "ciEq a p" shows "drop (length p) (a @ b) = b"
  using ciEq_length [OF assms] by simp

lemma ciPrefix_split:
  assumes "ciPrefix p s"
  shows "s = take (length p) s @ drop (length p) s \<and> ciEq (take (length p) s) p"
  using assms by (simp add: ciPrefix_def)

lemma matchFileComment_Some:
  assumes "matchFileComment s = Some (p, v)"
  shows "\<exists>K ws. s = K @ ws @ p @ nl # v \<and> ciEq K ''file:'' \<and> list_all isSpaceChar ws
           \<and> p \<noteq> [] \<and> list_all (\<lambda>c. \<not> isLineTerminator c) p"
proof -
  from assms have cp: "ciPrefix ''file:'' s" and st: "spacesThen restOfLine (drop 5 s) = Some (p, v)"
    by (auto simp: matchFileComment_def split: if_splits)
  from ciPrefix_split [OF cp, unfolded length_file]
  have s: "s = take 5 s @ drop 5 s" and k: "ciEq (take 5 s) ''file:''"
    by blast+
  from spacesThen_Some [OF st] obtain ws u where
    u: "drop 5 s = ws @ u" "list_all isSpaceChar ws" "restOfLine u = Some (p, v)" by blast
  from restOfLine_Some [OF u(3)]
  have r: "u = p @ nl # v" "p \<noteq> []" "list_all (\<lambda>c. \<not> isLineTerminator c) p"
    by auto
  have "s = take 5 s @ ws @ p @ nl # v"
    using s u(1) r(1) by simp
  with k u(2) r(2,3) show ?thesis by blast
qed

lemma matchFileComment_complete:
  assumes "ciEq K ''file:''" and "list_all isSpaceChar ws"
    and "p \<noteq> []" and "list_all (\<lambda>c. \<not> isLineTerminator c) p"
  shows "matchFileComment (K @ ws @ p @ nl # v) \<noteq> None"
proof -
  have "ciPrefix ''file:'' (K @ ws @ p @ nl # v)" using assms(1) by (rule ciPrefix_append)
  moreover have "drop 5 (K @ ws @ p @ nl # v) = ws @ p @ nl # v"
    using ciPrefix_drop [OF assms(1), unfolded length_file] .
  moreover have "spacesThen restOfLine (ws @ p @ nl # v) \<noteq> None"
    using assms(2) by (rule spacesThen_complete) (simp add: restOfLine_complete assms(3,4))
  ultimately show ?thesis by (simp add: matchFileComment_def)
qed

lemma search_exists:
  assumes "m t \<noteq> None" shows "search m (p @ t) \<noteq> None"
proof
  assume "search m (p @ t) = None"
  from search_None_iff [THEN iffD1, OF this, rule_format, of p t]
  have "m t = None" by simp
  with assms show False by simp
qed

lemma fileMatch_Some:
  assumes "fileMatch body = Some f"
  shows "\<exists>pre K ws p post. body = pre @ K @ ws @ p @ [nl] @ post \<and> ciEq K ''file:''
           \<and> list_all isSpaceChar ws \<and> p \<noteq> [] \<and> list_all (\<lambda>c. \<not> isLineTerminator c) p
           \<and> f = trim p"
proof -
  from assms obtain pre m1 rest where s: "search matchFileComment body = Some (pre, m1, rest)"
    and f: "f = trim m1"
    by (auto simp: fileMatch_def split: option.splits)
  from search_Some_decomp [OF s] obtain t where t: "body = pre @ t" "matchFileComment t = Some (m1, rest)"
    by blast
  from matchFileComment_Some [OF t(2)] obtain K ws where
    "t = K @ ws @ m1 @ nl # rest" "ciEq K ''file:''" "list_all isSpaceChar ws"
    "m1 \<noteq> []" "list_all (\<lambda>c. \<not> isLineTerminator c) m1" by blast
  with t(1) f show ?thesis
    by (intro exI [of _ pre] exI [of _ K] exI [of _ ws] exI [of _ m1] exI [of _ rest]) simp
qed

lemma fileMatch_None_iff:
  "fileMatch body = None \<longleftrightarrow>
     \<not> (\<exists>pre K ws p post. body = pre @ K @ ws @ p @ [nl] @ post \<and> ciEq K ''file:''
           \<and> list_all isSpaceChar ws \<and> p \<noteq> [] \<and> list_all (\<lambda>c. \<not> isLineTerminator c) p)"
proof
  assume n: "fileMatch body = None"
  show "\<not> (\<exists>pre K ws p post. body = pre @ K @ ws @ p @ [nl] @ post \<and> ciEq K ''file:''
           \<and> list_all isSpaceChar ws \<and> p \<noteq> [] \<and> list_all (\<lambda>c. \<not> isLineTerminator c) p)"
  proof
    assume "\<exists>pre K ws p post. body = pre @ K @ ws @ p @ [nl] @ post \<and> ciEq K ''file:''
           \<and> list_all isSpaceChar ws \<and> p \<noteq> [] \<and> list_all (\<lambda>c. \<not> isLineTerminator c) p"
    then obtain pre K ws p post where b: "body = pre @ K @ ws @ p @ [nl] @ post" and
      h: "ciEq K ''file:''" "list_all isSpaceChar ws" "p \<noteq> []" "list_all (\<lambda>c. \<not> isLineTerminator c) p"
      by blast
    have "matchFileComment (K @ ws @ p @ nl # post) \<noteq> None"
      using h by (rule matchFileComment_complete)
    then have "search matchFileComment (pre @ K @ ws @ p @ nl # post) \<noteq> None"
      by (rule search_exists)
    with b n show False by (auto simp: fileMatch_def split: option.splits)
  qed
next
  assume h: "\<not> (\<exists>pre K ws p post. body = pre @ K @ ws @ p @ [nl] @ post \<and> ciEq K ''file:''
           \<and> list_all isSpaceChar ws \<and> p \<noteq> [] \<and> list_all (\<lambda>c. \<not> isLineTerminator c) p)"
  show "fileMatch body = None"
  proof (cases "fileMatch body")
    case None
    then show ?thesis .
  next
    case (Some f)
    from fileMatch_Some [OF Some] h show ?thesis by blast
  qed
qed

lemma extract_file_eq:
  "extractCodeBlocks_file v =
     map (\<lambda>b. \<lparr>lang = lang b, code = code b, fullBlock = fullBlock b, filename = fileMatch (code b)\<rparr>)
       (extractCodeBlocks v)"
proof (cases v)
  case (Str s)
  have "execAll pushBlock_file s =
      map (\<lambda>b. \<lparr>lang = lang b, code = code b, fullBlock = fullBlock b, filename = fileMatch (code b)\<rparr>)
        (execAll pushBlock s)"
    by (subst execAll_map, subst (2) execAll_map) (simp add: pushBlock_def pushBlock_file_def case_prod_unfold)
  with Str show ?thesis by simp
qed simp_all

section \<open>The by-filename pattern\<close>
























section \<open>The by-language pattern on a well-formed document\<close>




lemma ciEq_sym: "ciEq a b \<Longrightarrow> ciEq b a"
  by (simp add: ciEq_def)



















section \<open>The by-language loop\<close>

lemma snd_mergeStep: "snd (mergeStep st blk) = setTrue (snd st) (lang blk)"
  by (simp add: mergeStep_def Let_def split: prod.splits)

lemma mergeStep_consumed:
  "truthyAt (snd st) (lang blk) \<Longrightarrow>
     mergeStep st blk = (fst st @ [nl, nl] @ newFullBlock blk, setTrue (snd st) (lang blk))"
  by (simp add: mergeStep_def Let_def)

lemma mergeStep_cases:
  "mergeStep st blk =
     (if replacesInPlace st blk
      then (fst (replaceFirstCodeBlockByLang (fst st) (lang blk) (newFullBlock blk)),
            setTrue (snd st) (lang blk))
      else (fst st @ [nl, nl] @ newFullBlock blk, setTrue (snd st) (lang blk)))"
  by (simp add: mergeStep_def replacesInPlace_def Let_def split: prod.splits)

lemma proto_inherited: "''__proto__'' \<in> set objectPrototypeKeys"
  by (simp add: objectPrototypeKeys_def)

lemma truthyAt_setTrue: "truthyAt (setTrue keys k) k"
  using proto_inherited by (auto simp: truthyAt_def setTrue_def)

lemma truthyAt_mono: "truthyAt keys k \<Longrightarrow> truthyAt (setTrue keys k') k"
  by (auto simp: truthyAt_def setTrue_def)

lemma set_setTrue: "set (setTrue keys k) = set keys \<union> ({k} - {''__proto__''})"
  by (auto simp: setTrue_def)

lemma truthyAt_foldl:
  "truthyAt (snd st) k \<Longrightarrow> truthyAt (snd (foldl mergeStep st blks)) k"
  by (induction blks arbitrary: st) (auto simp: snd_mergeStep truthyAt_mono)

lemma truthyAt_after:
  "blk \<in> set blks \<Longrightarrow> truthyAt (snd (foldl mergeStep st blks)) (lang blk)"
proof (induction blks arbitrary: st)
  case Nil
  then show ?case by simp
next
  case (Cons a blks)
  show ?case
  proof (cases "blk = a")
    case True
    have "truthyAt (snd (mergeStep st a)) (lang a)"
      by (simp add: snd_mergeStep truthyAt_setTrue)
    then show ?thesis using True truthyAt_foldl by simp
  next
    case False
    with Cons show ?thesis by simp
  qed
qed


lemma inPlace_fresh: "k \<in> set (inPlace st blks) \<Longrightarrow> \<not> truthyAt (snd st) k"
proof (induction blks arbitrary: st)
  case Nil
  then show ?case by simp
next
  case (Cons a blks)
  show ?case
  proof (cases "k \<in> set (inPlace (mergeStep st a) blks)")
    case True
    then have "\<not> truthyAt (snd (mergeStep st a)) k" by (rule Cons.IH)
    then show ?thesis using truthyAt_mono by (auto simp: snd_mergeStep)
  next
    case False
    with Cons.prems have "replacesInPlace st a" "k = lang a" by (auto split: if_splits)
    then show ?thesis by (simp add: replacesInPlace_def)
  qed
qed

lemma distinct_inPlace: "distinct (inPlace st blks)"
proof (induction blks arbitrary: st)
  case Nil
  then show ?case by simp
next
  case (Cons a blks)
  have "lang a \<notin> set (inPlace (mergeStep st a) blks)"
    using inPlace_fresh [of "lang a" "mergeStep st a" blks]
    by (auto simp: snd_mergeStep truthyAt_setTrue)
  with Cons.IH show ?case by simp
qed

lemma set_objectKeys: "set (objectKeys ks) = set ks"
  by (auto simp: objectKeys_def)

lemma set_keys_foldl:
  "set (snd (foldl mergeStep st blks)) = set (snd st) \<union> (lang ` set blks - {''__proto__''})"
  by (induction blks arbitrary: st) (auto simp: snd_mergeStep set_setTrue)

section \<open>First match only\<close>




section \<open>A language is consumed by an append as well\<close>

text \<open>
  Claim C10.  In the by-language loop, after a step on a block its language is a
  truthy key of \<^verbatim>\<open>replacedLangs\<close>, whether the step replaced or appended.  A
  step on a block whose language is already a truthy key does not replace in
  place, and a step that does not replace in place appends the new block after a
  blank line.  So the languages replaced in place during one call are pairwise
  distinct (at most one replacement per language), and a new block whose language
  is that of an earlier new block of the same call is appended: a block appended
  earlier is never the target of a later replacement.
\<close>

theorem consumed_on_append:
  "truthyAt (snd (mergeStep st blk)) (lang blk)
   \<and> (truthyAt (snd st) (lang blk) \<longrightarrow> \<not> replacesInPlace st blk)
   \<and> (\<not> replacesInPlace st blk \<longrightarrow>
        fst (mergeStep st blk) = fst st @ [nl, nl] @ newFullBlock blk)
   \<and> distinct (inPlace st blks)
   \<and> (b1 \<in> set blks \<and> lang b1 = lang b2 \<longrightarrow>
        \<not> replacesInPlace (foldl mergeStep st blks) b2
        \<and> fst (foldl mergeStep st (blks @ [b2])) =
            fst (foldl mergeStep st blks) @ [nl, nl] @ newFullBlock b2)"
proof (intro conjI impI)
  show "truthyAt (snd (mergeStep st blk)) (lang blk)"
    by (simp add: snd_mergeStep truthyAt_setTrue)
  show "\<not> replacesInPlace st blk" if "truthyAt (snd st) (lang blk)"
    using that by (simp add: replacesInPlace_def)
  show "fst (mergeStep st blk) = fst st @ [nl, nl] @ newFullBlock blk"
    if "\<not> replacesInPlace st blk"
    using that by (simp add: mergeStep_cases)
  show "distinct (inPlace st blks)" by (rule distinct_inPlace)
next
  assume h: "b1 \<in> set blks \<and> lang b1 = lang b2"
  then have t: "truthyAt (snd (foldl mergeStep st blks)) (lang b2)"
    using truthyAt_after [of b1 blks st] by simp
  then show "\<not> replacesInPlace (foldl mergeStep st blks) b2"
    by (simp add: replacesInPlace_def)
  from t show "fst (foldl mergeStep st (blks @ [b2])) =
      fst (foldl mergeStep st blks) @ [nl, nl] @ newFullBlock b2"
    by (simp add: mergeStep_consumed)
qed

text \<open>
  The witness: the previous text is empty, so the first new js block is appended;
  the second new js block then finds the js block that was just appended in the
  document, and is appended all the same.
\<close>

theorem consumed_on_append_witness:
  "truthyAt (snd ([nl, nl] @ fence @ ''js'' @ [nl] @ ''1'' @ [nl] @ fence, [''js''])) ''js''
   \<and> \<not> replacesInPlace ([], []) \<lparr>lang = ''js'', code = ''1'', fullBlock = []\<rparr>
   \<and> \<lparr>lang = ''js'', code = ''1'', fullBlock = []\<rparr> \<in> set [\<lparr>lang = ''js'', code = ''1'', fullBlock = []\<rparr>]
   \<and> lang \<lparr>lang = ''js'', code = ''1'', fullBlock = []\<rparr> = lang \<lparr>lang = ''js'', code = ''2'', fullBlock = []\<rparr>
   \<and> snd (replaceFirstCodeBlockByLang ([nl, nl] @ fence @ ''js'' @ [nl] @ ''1'' @ [nl] @ fence) ''js''
            (newFullBlock \<lparr>lang = ''js'', code = ''2'', fullBlock = []\<rparr>))
   \<and> fst (foldl mergeStep ([], [])
        [\<lparr>lang = ''js'', code = ''1'', fullBlock = []\<rparr>, \<lparr>lang = ''js'', code = ''2'', fullBlock = []\<rparr>])
      = [nl, nl] @ fence @ ''js'' @ [nl] @ ''1'' @ [nl] @ fence
        @ [nl, nl] @ fence @ ''js'' @ [nl] @ ''2'' @ [nl] @ fence"
proof -
  let ?b1 = "\<lparr>lang = ''js'', code = ''1'', fullBlock = []\<rparr>"
  let ?b2 = "\<lparr>lang = ''js'', code = ''2'', fullBlock = []\<rparr>"
  have s1: "mergeStep ([], []) ?b1 = ([nl, nl] @ fence @ ''js'' @ [nl] @ ''1'' @ [nl] @ fence, [''js''])"
    by code_simp
  have n1: "\<not> replacesInPlace ([], []) ?b1" by code_simp
  have r2: "snd (replaceFirstCodeBlockByLang ([nl, nl] @ fence @ ''js'' @ [nl] @ ''1'' @ [nl] @ fence) ''js''
            (newFullBlock ?b2))"
    by code_simp
  have t: "truthyAt [''js''] ''js''" by code_simp
  have nb: "newFullBlock ?b2 = fence @ ''js'' @ [nl] @ ''2'' @ [nl] @ fence"
    by (simp add: newFullBlock_def)
  show ?thesis
    using consumed_on_append [of "([], [])" ?b1 "[?b1]" ?b1 ?b2] s1 n1 r2 t nb
    by (simp add: newFullBlock_def)
qed

section \<open>Result metadata\<close>

text \<open>
  Claim C9, as amended.  The answer of the by-language handler reports the number
  of new blocks (\<^verbatim>\<open>aiBlocksCount\<close>) and, under \<^verbatim>\<open>replacedLangs\<close>, the
  languages of all new blocks of the call, whether they replaced a block or were
  appended (but for the language \<^verbatim>\<open>__proto__\<close>, which never becomes a key).  It
  does not report how many blocks were replaced and how many appended.
\<close>

theorem metadata_reports_processed_langs:
  assumes "handler previousCode fullOutput = Inr r"
  shows "aiBlocksCount r = length (extractCodeBlocks (Str fullOutput))
       \<and> set (replacedLangs r) = lang ` set (extractCodeBlocks (Str fullOutput)) - {''__proto__''}"
proof -
  from assms have
    "r = \<lparr>output = (if extractCodeBlocks (Str fullOutput) = []
                    then fst (foldl mergeStep (previousCode, []) (extractCodeBlocks (Str fullOutput))) @ [nl, nl] @ fullOutput
                    else fst (foldl mergeStep (previousCode, []) (extractCodeBlocks (Str fullOutput)))),
          aiRaw = fullOutput,
          aiBlocksCount = length (extractCodeBlocks (Str fullOutput)),
          replacedLangs = objectKeys (snd (foldl mergeStep (previousCode, []) (extractCodeBlocks (Str fullOutput))))\<rparr>"
    by (simp add: handler_def Let_def split: if_splits)
  then show ?thesis
    by (simp add: set_objectKeys set_keys_foldl)
qed

theorem metadata_reports_processed_langs_witness:
  "handler [] (fence @ ''js'' @ [nl] @ ''x'' @ fence) =
     Inr \<lparr>output = [nl, nl] @ fence @ ''js'' @ [nl] @ ''x'' @ [nl] @ fence,
          aiRaw = fence @ ''js'' @ [nl] @ ''x'' @ fence, aiBlocksCount = 1,
          replacedLangs = [''js'']\<rparr>
   \<and> (1::nat) = length (extractCodeBlocks (Str (fence @ ''js'' @ [nl] @ ''x'' @ fence)))
   \<and> set [''js''] = lang ` set (extractCodeBlocks (Str (fence @ ''js'' @ [nl] @ ''x'' @ fence))) - {''__proto__''}"
proof -
  have h: "handler [] (fence @ ''js'' @ [nl] @ ''x'' @ fence) =
     Inr \<lparr>output = [nl, nl] @ fence @ ''js'' @ [nl] @ ''x'' @ [nl] @ fence,
          aiRaw = fence @ ''js'' @ [nl] @ ''x'' @ fence, aiBlocksCount = 1,
          replacedLangs = [''js'']\<rparr>"
    by code_simp
  show ?thesis
    using h metadata_reports_processed_langs [OF h] by simp
qed

text \<open>
  The claim as it was stated fails: with an empty previous text the one new js
  block is appended, no step replaces in place, and yet \<^verbatim>\<open>js\<close> is reported under
  \<^verbatim>\<open>replacedLangs\<close>.
\<close>

theorem metadata_lists_appended_lang:
  "handler [] (fence @ ''js'' @ [nl] @ ''x'' @ fence) =
     Inr \<lparr>output = [nl, nl] @ fence @ ''js'' @ [nl] @ ''x'' @ [nl] @ fence,
          aiRaw = fence @ ''js'' @ [nl] @ ''x'' @ fence, aiBlocksCount = 1,
          replacedLangs = [''js'']\<rparr>
   \<and> inPlace ([], []) (extractCodeBlocks (Str (fence @ ''js'' @ [nl] @ ''x'' @ fence))) = []"
  by code_simp

section \<open>Whole-output fallback\<close>

text \<open>
  Claim C8.  When the text of the model is not blank (a blank text ends the request
  with an error before any merge) and holds no extractable block, both handlers
  answer with the previous text, the blank line \<^verbatim>\<open>"\n\n"\<close> that separates every
  append, and the complete text of the model; nothing in the previous text is
  replaced, the block count is 0 and no language is reported as replaced.
\<close>

theorem whole_output_fallback:
  assumes "trim fullOutput \<noteq> []" and "extractCodeBlocks (Str fullOutput) = []"
  shows "handler previousCode fullOutput =
           Inr \<lparr>output = previousCode @ [nl, nl] @ fullOutput, aiRaw = fullOutput,
                aiBlocksCount = 0, replacedLangs = []\<rparr>
       \<and> handler_file previousCode fullOutput =
           Inr \<lparr>output_file = previousCode @ [nl, nl] @ fullOutput, aiRaw_file = fullOutput,
                aiBlocksCount_file = 0\<rparr>"
proof -
  from assms(1) have ne: "fullOutput \<noteq> []" by (auto simp: trim_def)
  with assms(2) have "search matchBlock fullOutput = None"
    by (simp add: execAll_Nil_iff)
  then have "extractCodeBlocks_file (Str fullOutput) = []"
    using ne by (simp add: execAll_Nil_iff)
  with assms ne show ?thesis
    by (simp add: handler_def handler_file_def objectKeys_Nil)
qed

theorem whole_output_fallback_witness:
  "trim ''Sure, done.'' \<noteq> [] \<and> extractCodeBlocks (Str ''Sure, done.'') = []
   \<and> handler ''old'' ''Sure, done.'' =
           Inr \<lparr>output = ''old'' @ [nl, nl] @ ''Sure, done.'', aiRaw = ''Sure, done.'',
                aiBlocksCount = 0, replacedLangs = []\<rparr>
   \<and> handler_file ''old'' ''Sure, done.'' =
           Inr \<lparr>output_file = ''old'' @ [nl, nl] @ ''Sure, done.'', aiRaw_file = ''Sure, done.'',
                aiBlocksCount_file = 0\<rparr>"
proof -
  have a: "trim ''Sure, done.'' \<noteq> []" by code_simp
  have b: "extractCodeBlocks (Str ''Sure, done.'') = []" by code_simp
  show ?thesis using a b whole_output_fallback [OF a b, of "''old''"] by simp
qed


section \<open>Extraction is total and exact\<close>

text \<open>
  Claim C3.  \<open>extractCodeBlocks\<close> (in both files) is a total function: it is defined
  on every JavaScript value, its loop terminates, and it has no failing branch.
  On a value that is not a string, and on the empty string, it returns the empty
  list.  On a well-formed document with N blocks it returns exactly these N blocks
  in source order, each with its language token lower-cased, its body the exact
  text between the line feed of the opening line and the closing fence, and its
  full text the fenced block as it stands in the document.
\<close>

theorem extract_total_exact:
  "extractCodeBlocks Undefined = [] \<and> extractCodeBlocks Null = [] \<and> extractCodeBlocks Other = []
   \<and> extractCodeBlocks (Str []) = []
   \<and> extractCodeBlocks_file Undefined = [] \<and> extractCodeBlocks_file Null = []
   \<and> extractCodeBlocks_file Other = [] \<and> extractCodeBlocks_file (Str []) = []
   \<and> (wellFormedDoc t0 segs \<longrightarrow>
        extractCodeBlocks (Str (renderDoc t0 segs)) =
          map (\<lambda>(L, body, t).
                 \<lparr>lang = toLowerCase L, code = body, fullBlock = fence @ L @ [nl] @ body @ fence\<rparr>) segs
      \<and> extractCodeBlocks_file (Str (renderDoc t0 segs)) =
          map (\<lambda>(L, body, t).
                 \<lparr>lang = toLowerCase L, code = body, fullBlock = fence @ L @ [nl] @ body @ fence,
                  filename = fileMatch body\<rparr>) segs)"
proof (intro conjI impI)
  assume wf: "wellFormedDoc t0 segs"
  have e: "execAll pushBlock (renderDoc t0 segs) = map (\<lambda>(L, body, t). pushBlock L body) segs"
    using wf by (rule execAll_wellFormed)
  have "extractCodeBlocks (Str (renderDoc t0 segs)) = execAll pushBlock (renderDoc t0 segs)"
  proof (cases "renderDoc t0 segs = []")
    case True
    then have "segs = []" by (cases segs) (auto simp: fence_def)
    with True e show ?thesis by simp
  next
    case False
    then show ?thesis by simp
  qed
  with e show plain: "extractCodeBlocks (Str (renderDoc t0 segs)) =
          map (\<lambda>(L, body, t).
                 \<lparr>lang = toLowerCase L, code = body, fullBlock = fence @ L @ [nl] @ body @ fence\<rparr>) segs"
    by (simp add: pushBlock_def)
  show "extractCodeBlocks_file (Str (renderDoc t0 segs)) =
          map (\<lambda>(L, body, t).
                 \<lparr>lang = toLowerCase L, code = body, fullBlock = fence @ L @ [nl] @ body @ fence,
                  filename = fileMatch body\<rparr>) segs"
    by (subst extract_file_eq, subst plain) (simp add: case_prod_unfold)
qed simp_all

theorem extract_total_exact_witness:
  "wellFormedDoc ''a'' [(''JS'', ''x'' @ [nl], '' b ''), (''html'', [], [])]
   \<and> extractCodeBlocks (Str (''a'' @ fence @ ''JS'' @ [nl] @ ''x'' @ [nl] @ fence @ '' b ''
                               @ fence @ ''html'' @ [nl] @ fence)) =
       [\<lparr>lang = ''js'', code = ''x'' @ [nl], fullBlock = fence @ ''JS'' @ [nl] @ ''x'' @ [nl] @ fence\<rparr>,
        \<lparr>lang = ''html'', code = [], fullBlock = fence @ ''html'' @ [nl] @ fence\<rparr>]"
proof -
  have wf: "wellFormedDoc ''a'' [(''JS'', ''x'' @ [nl], '' b ''), (''html'', [], [])]"
    by code_simp
  have lc: "toLowerCase ''JS'' = ''js''" "toLowerCase ''html'' = ''html''"
    by code_simp+
  show ?thesis
    using wf lc extract_total_exact [of "''a''" "[(''JS'', ''x'' @ [nl], '' b ''), (''html'', [], [])]"]
    by simp
qed

section \<open>Re-serializing a block\<close>

text \<open>
  Claim C4, as amended.  Every extracted block stands in the document as its full
  text, which is the fence, a token, a line feed, the body and the fence.  The
  text the merger builds for it is the fence, the token in lower case, a line
  feed, the body, one more line feed and the fence.  Put in the place of the
  block it gives a document that is one character longer than the original: the
  original but for the case of the token and a line feed in front of the closing
  fence.
\<close>

theorem reserialized_block_differs:
  assumes "b \<in> set (extractCodeBlocks (Str doc))"
  shows "\<exists>pre post L.
           doc = pre @ fullBlock b @ post
         \<and> fullBlock b = fence @ L @ [nl] @ code b @ fence
         \<and> lang b = toLowerCase L
         \<and> newFullBlock b = fence @ toLowerCase L @ [nl] @ code b @ [nl] @ fence
         \<and> length (pre @ newFullBlock b @ post) = length doc + 1"
proof -
  from assms have "b \<in> set (execAll pushBlock doc)"
    by (cases "doc = []") auto
  from execAll_mem [OF this] obtain pre w body rest where
    d: "doc = pre @ fence @ w @ [nl] @ body @ fence @ rest" and b: "b = pushBlock w body"
    by auto
  have "doc = pre @ fullBlock b @ rest" using d b by (simp add: pushBlock_def)
  moreover have "fullBlock b = fence @ w @ [nl] @ code b @ fence" using b by (simp add: pushBlock_def)
  moreover have "lang b = toLowerCase w" using b by (simp add: pushBlock_def)
  moreover have "newFullBlock b = fence @ toLowerCase w @ [nl] @ code b @ [nl] @ fence"
    using b by (simp add: pushBlock_def newFullBlock_def)
  moreover have "length (pre @ newFullBlock b @ rest) = length doc + 1"
    using d b by (simp add: pushBlock_def newFullBlock_def toLowerCase_def)
  ultimately show ?thesis by blast
qed

theorem reserialized_block_differs_witness:
  "\<lparr>lang = ''js'', code = ''x'' @ [nl], fullBlock = fence @ ''JS'' @ [nl] @ ''x'' @ [nl] @ fence\<rparr>
     \<in> set (extractCodeBlocks (Str (''a'' @ fence @ ''JS'' @ [nl] @ ''x'' @ [nl] @ fence @ ''b'')))
   \<and> (\<exists>pre post L.
         ''a'' @ fence @ ''JS'' @ [nl] @ ''x'' @ [nl] @ fence @ ''b'' =
           pre @ fullBlock \<lparr>lang = ''js'', code = ''x'' @ [nl], fullBlock = fence @ ''JS'' @ [nl] @ ''x'' @ [nl] @ fence\<rparr> @ post
       \<and> fullBlock \<lparr>lang = ''js'', code = ''x'' @ [nl], fullBlock = fence @ ''JS'' @ [nl] @ ''x'' @ [nl] @ fence\<rparr> =
           fence @ L @ [nl] @ code \<lparr>lang = ''js'', code = ''x'' @ [nl], fullBlock = fence @ ''JS'' @ [nl] @ ''x'' @ [nl] @ fence\<rparr> @ fence
       \<and> lang \<lparr>lang = ''js'', code = ''x'' @ [nl], fullBlock = fence @ ''JS'' @ [nl] @ ''x'' @ [nl] @ fence\<rparr> = toLowerCase L
       \<and> newFullBlock \<lparr>lang = ''js'', code = ''x'' @ [nl], fullBlock = fence @ ''JS'' @ [nl] @ ''x'' @ [nl] @ fence\<rparr> =
           fence @ toLowerCase L @ [nl] @ code \<lparr>lang = ''js'', code = ''x'' @ [nl], fullBlock = fence @ ''JS'' @ [nl] @ ''x'' @ [nl] @ fence\<rparr> @ [nl] @ fence
       \<and> length (pre @ newFullBlock \<lparr>lang = ''js'', code = ''x'' @ [nl], fullBlock = fence @ ''JS'' @ [nl] @ ''x'' @ [nl] @ fence\<rparr> @ post) =
           length (''a'' @ fence @ ''JS'' @ [nl] @ ''x'' @ [nl] @ fence @ ''b'') + 1)"
proof -
  have m: "\<lparr>lang = ''js'', code = ''x'' @ [nl], fullBlock = fence @ ''JS'' @ [nl] @ ''x'' @ [nl] @ fence\<rparr>
     \<in> set (extractCodeBlocks (Str (''a'' @ fence @ ''JS'' @ [nl] @ ''x'' @ [nl] @ fence @ ''b'')))"
    by code_simp
  show ?thesis
    using m reserialized_block_differs [OF m] by (rule conjI)
qed

text \<open>
  The round trip as it was stated fails on the smallest document: the block
  re-serialized has two line feeds in front of the closing fence.
\<close>

theorem round_trip_adds_newline:
  "extractCodeBlocks (Str (fence @ ''js'' @ [nl] @ ''x'' @ [nl] @ fence)) =
     [\<lparr>lang = ''js'', code = ''x'' @ [nl], fullBlock = fence @ ''js'' @ [nl] @ ''x'' @ [nl] @ fence\<rparr>]
   \<and> fence @ ''js'' @ [nl] @ ''x'' @ [nl] @ fence =
       [] @ fullBlock \<lparr>lang = ''js'', code = ''x'' @ [nl], fullBlock = fence @ ''js'' @ [nl] @ ''x'' @ [nl] @ fence\<rparr> @ []
   \<and> [] @ newFullBlock \<lparr>lang = ''js'', code = ''x'' @ [nl], fullBlock = fence @ ''js'' @ [nl] @ ''x'' @ [nl] @ fence\<rparr> @ []
       \<noteq> fence @ ''js'' @ [nl] @ ''x'' @ [nl] @ fence"
  by code_simp

section \<open>Filename recovery\<close>

text \<open>
  Claim C7, as amended.  The blocks of the filename-aware extraction are the
  blocks of the plain one (language, body and full text are not touched) with a
  file name computed from the body.  The file name is searched for in the whole
  body, not only in its first line: it is absent exactly when the body holds
  nowhere the marker \<^verbatim>\<open>file:\<close> (in any case), white space, a non-empty run of
  characters that are not line terminators and a line feed; and when it is
  present it is such a run, trimmed.
\<close>

theorem filename_recovery_scans_body:
  "extractCodeBlocks_file v =
     map (\<lambda>b. \<lparr>lang = lang b, code = code b, fullBlock = fullBlock b, filename = fileMatch (code b)\<rparr>)
       (extractCodeBlocks v)
   \<and> (fileMatch body = None \<longleftrightarrow>
        \<not> (\<exists>pre K ws p post. body = pre @ K @ ws @ p @ [nl] @ post \<and> ciEq K ''file:''
              \<and> list_all isSpaceChar ws \<and> p \<noteq> [] \<and> list_all (\<lambda>c. \<not> isLineTerminator c) p))
   \<and> (fileMatch body = Some f \<longrightarrow>
        (\<exists>pre K ws p post. body = pre @ K @ ws @ p @ [nl] @ post \<and> ciEq K ''file:''
              \<and> list_all isSpaceChar ws \<and> p \<noteq> [] \<and> list_all (\<lambda>c. \<not> isLineTerminator c) p
              \<and> f = trim p))"
proof (intro conjI impI)
  show "extractCodeBlocks_file v =
     map (\<lambda>b. \<lparr>lang = lang b, code = code b, fullBlock = fullBlock b, filename = fileMatch (code b)\<rparr>)
       (extractCodeBlocks v)"
    by (rule extract_file_eq)
  show "fileMatch body = None \<longleftrightarrow>
        \<not> (\<exists>pre K ws p post. body = pre @ K @ ws @ p @ [nl] @ post \<and> ciEq K ''file:''
              \<and> list_all isSpaceChar ws \<and> p \<noteq> [] \<and> list_all (\<lambda>c. \<not> isLineTerminator c) p)"
    by (rule fileMatch_None_iff)
  show "\<exists>pre K ws p post. body = pre @ K @ ws @ p @ [nl] @ post \<and> ciEq K ''file:''
              \<and> list_all isSpaceChar ws \<and> p \<noteq> [] \<and> list_all (\<lambda>c. \<not> isLineTerminator c) p
              \<and> f = trim p"
    if "fileMatch body = Some f"
    using that by (rule fileMatch_Some)
qed

theorem filename_recovery_scans_body_witness:
  "fileMatch (''x'' @ [nl] @ ''// file: a.js '' @ [nl]) = Some ''a.js''
   \<and> (\<exists>pre K ws p post.
         ''x'' @ [nl] @ ''// file: a.js '' @ [nl] = pre @ K @ ws @ p @ [nl] @ post \<and> ciEq K ''file:''
         \<and> list_all isSpaceChar ws \<and> p \<noteq> [] \<and> list_all (\<lambda>c. \<not> isLineTerminator c) p
         \<and> ''a.js'' = trim p)"
proof -
  have h: "fileMatch (''x'' @ [nl] @ ''// file: a.js '' @ [nl]) = Some ''a.js''" by code_simp
  show ?thesis
    using h filename_recovery_scans_body [of Undefined "''x'' @ [nl] @ ''// file: a.js '' @ [nl]" "''a.js''"]
    by simp
qed

text \<open>
  The claim as it was stated fails: the first line of this body is \<^verbatim>\<open>x\<close>, which
  holds no marker, and the marker on the second line gives the file name.
\<close>

theorem marker_on_later_line_found:
  "extractCodeBlocks_file (Str (fence @ ''js'' @ [nl] @ ''x'' @ [nl] @ ''// file: a.js'' @ [nl] @ fence)) =
     [\<lparr>lang = ''js'', code = ''x'' @ [nl] @ ''// file: a.js'' @ [nl],
       fullBlock = fence @ ''js'' @ [nl] @ ''x'' @ [nl] @ ''// file: a.js'' @ [nl] @ fence,
       filename = Some ''a.js''\<rparr>]
   \<and> fileMatch (''x'' @ [nl]) = None"
  by code_simp

section \<open>Replacement by file name reaches over blocks\<close>

text \<open>
  Claim C1, at its own example in by-filename mode.  The previous text holds an html
  block (marked \<^verbatim>\<open>index.html\<close>) and a js block (marked \<^verbatim>\<open>app.js\<close>); the one
  new block is a js block marked \<^verbatim>\<open>app.js\<close>.  The pattern matches from the
  opening fence of the html block, its lazy wildcard runs over the end of that
  block up to the marker of the js block, and the replacement removes the html
  block with the js block: the answer is the new block alone.
\<close>

theorem filename_merge_swallows_block:
  "handler_file
     (fence @ ''html'' @ [nl] @ ''<!-- file: index.html -->'' @ [nl] @ ''<p>'' @ [nl] @ fence
      @ [nl, nl] @ fence @ ''js'' @ [nl] @ ''// file: app.js'' @ [nl] @ ''old'' @ [nl] @ fence)
     (fence @ ''js'' @ [nl] @ ''// file: app.js'' @ [nl] @ ''new'' @ [nl] @ fence)
   = Inr \<lparr>output_file = fence @ ''js'' @ [nl] @ ''// file: app.js'' @ [nl] @ ''new'' @ [nl] @ [nl] @ fence,
          aiRaw_file = fence @ ''js'' @ [nl] @ ''// file: app.js'' @ [nl] @ ''new'' @ [nl] @ fence,
          aiBlocksCount_file = 1\<rparr>"
  by code_simp

section \<open>Replacement patterns in the new block\<close>

text \<open>
  Claim C5, at a body that holds two dollar signs.  \<^verbatim>\<open>String.prototype.replace\<close>
  reads the new block as a replacement pattern, so \<^verbatim>\<open>$$\<close> arrives in the merged
  document as a single dollar sign: the new block is not inserted character for
  character.
\<close>

theorem dollar_pattern_expanded:
  "handler (fence @ ''js'' @ [nl] @ ''old'' @ [nl] @ fence)
           (fence @ ''js'' @ [nl] @ ''cost = \"$$\";'' @ [nl] @ fence)
   = Inr \<lparr>output = fence @ ''js'' @ [nl] @ ''cost = \"$\";'' @ [nl] @ [nl] @ fence,
          aiRaw = fence @ ''js'' @ [nl] @ ''cost = \"$$\";'' @ [nl] @ fence,
          aiBlocksCount = 1, replacedLangs = [''js'']\<rparr>"
  by code_simp


section \<open>Merging by file name\<close>




end
